theory Spec2Isabelle
  imports Main "HOL-Library.Word"
begin

unbundle bit_operations_syntax

section \<open>Machine model\<close>

text \<open>
  The board is a 32-bit little-endian ARM machine: \<open>u32\<close>, \<open>uint\<close> and \<open>ulong\<close> are
  32-bit words. A memory object (the readable address space holding the firmware's tag
  list, the block returned by \<open>malloc\<close>, the kernel's parameter area) is a list of
  bytes addressed from 0. An access that leaves its object is undefined behaviour in C;
  every function that may perform one returns an \<open>option\<close>, and \<open>None\<close> is that fault.
\<close>

type_synonym u8 = "8 word"
type_synonym u32 = "32 word"
type_synonym bytes = "u8 list"

definition le32 :: "bytes \<Rightarrow> u32" where
  "le32 bs = foldr (\<lambda>b w. ucast b OR push_bit 8 w) bs 0"

definition read_u32 :: "bytes \<Rightarrow> nat \<Rightarrow> u32 option" where
  "read_u32 mem a =
     (if a + 4 \<le> length mem then Some (le32 (take 4 (drop a mem))) else None)"

text \<open>\<open>memcpy (dst + d, src + s, n)\<close>: the updated destination object.\<close>

definition memcpy :: "bytes \<Rightarrow> nat \<Rightarrow> bytes \<Rightarrow> nat \<Rightarrow> nat \<Rightarrow> bytes option" where
  "memcpy dst d src s n =
     (if s + n \<le> length src \<and> d + n \<le> length dst
      then Some (take d dst @ take n (drop s src) @ drop (d + n) dst)
      else None)"

text \<open>
  \<open>malloc\<close>: the allocator's behaviour is an input of the model. \<open>None\<close> is an
  allocator that returns \<open>NULL\<close>; \<open>Some f\<close> is one that returns a fresh block whose
  uninitialised byte \<open>i\<close> is \<open>f i\<close>.
\<close>

type_synonym allocator = "(nat \<Rightarrow> u8) option"

definition malloc :: "allocator \<Rightarrow> nat \<Rightarrow> bytes option" where
  "malloc heap n = map_option (\<lambda>f. map f [0..<n]) heap"

section \<open>The tag format (\<open>asm/setup.h\<close>)\<close>

text \<open>
  Modelled from the spec: the header \<open>asm/setup.h\<close> (the tag identifiers, \<open>struct tag\<close>,
  \<open>tag_next\<close> and \<open>for_each_tag\<close>) is not among the sources. The spec names the
  identifiers NONE, CORE, MEMORY, INITRD, SERIAL and INITRD2 without their values; the
  values below are those of the ARM boot protocol, and the development only uses that
  they are pairwise distinct.
\<close>

definition ATAG_NONE :: u32 where "ATAG_NONE = 0x00000000"
definition ATAG_CORE :: u32 where "ATAG_CORE = 0x54410001"
definition ATAG_MEM :: u32 where "ATAG_MEM = 0x54410002"
definition ATAG_INITRD :: u32 where "ATAG_INITRD = 0x54410005"
definition ATAG_SERIAL :: u32 where "ATAG_SERIAL = 0x54410006"
definition ATAG_INITRD2 :: u32 where "ATAG_INITRD2 = 0x54420005"

text \<open>
  Modelled from the spec: \<open>struct tag_header\<close>, section 6 of the spec: "each begins with
  a 2-word header (tag_id: u32, size_in_words: u32)". \<open>hdr_tag mem t\<close> is \<open>t->hdr.tag\<close>
  and \<open>hdr_size mem t\<close> is \<open>t->hdr.size\<close> for the tag at address \<open>t\<close>.
\<close>

definition hdr_tag :: "bytes \<Rightarrow> nat \<Rightarrow> u32 option" where
  "hdr_tag mem t = read_u32 mem t"

definition hdr_size :: "bytes \<Rightarrow> nat \<Rightarrow> u32 option" where
  "hdr_size mem t = read_u32 mem (t + 4)"

text \<open>
  Modelled from the spec: the payloads, section 6: MEM is \<open>(start: u32, size: u32)\<close> and
  SERIALNR is \<open>(low: u32, high: u32)\<close>, read at the address \<open>u\<close> of the payload.
\<close>

definition mem_start :: "bytes \<Rightarrow> nat \<Rightarrow> u32 option" where
  "mem_start mem u = read_u32 mem u"

definition mem_size :: "bytes \<Rightarrow> nat \<Rightarrow> u32 option" where
  "mem_size mem u = read_u32 mem (u + 4)"

definition serialnr_low :: "bytes \<Rightarrow> nat \<Rightarrow> u32 option" where
  "serialnr_low mem u = read_u32 mem u"

definition serialnr_high :: "bytes \<Rightarrow> nat \<Rightarrow> u32 option" where
  "serialnr_high mem u = read_u32 mem (u + 4)"

text \<open>
  Modelled from the spec: \<open>tag_next\<close>, section 4.1: each record reference is "advanced
  by current.size words from the previous".
\<close>

definition tag_next :: "bytes \<Rightarrow> nat \<Rightarrow> nat option" where
  "tag_next mem t = map_option (\<lambda>sz. t + 4 * unat sz) (hdr_size mem t)"

text \<open>
  Modelled from the spec: \<open>for_each_tag (t, base) body\<close>, section 4.1. The walk starts
  at \<open>base\<close>, runs the body on each tag and moves on by \<open>tag_next\<close>; "a record whose
  declared size is zero must be treated as a terminal/malformed condition and the walk
  aborted". The spec also says that the walk "ends when a record with tag identifier
  NONE is reached (exclusive)", while \<open>skip_atag\<close> in \<open>stemmy.c\<close> names \<open>ATAG_NONE\<close> among the
  tags that the loop bodies skip. Whether a NONE tag of nonzero size ends the walk is
  therefore a parameter of the model, \<open>ne\<close> ("NONE ends"; \<open>True\<close> is the spec's walk),
  and every result below holds for both of its values.

  The body is a function of the tag's address and the loop's state; it ends with
  \<open>Continue\<close> (also what C's \<open>continue\<close> does) or with \<open>Break\<close>.
\<close>

datatype 's loop = Continue 's | Break 's

definition at_end :: "bool \<Rightarrow> bytes \<Rightarrow> nat \<Rightarrow> bool option" where
  "at_end ne mem t =
     (case hdr_tag mem t of
        None \<Rightarrow> None
      | Some tg \<Rightarrow>
          (case hdr_size mem t of
             None \<Rightarrow> None
           | Some sz \<Rightarrow> Some (sz = 0 \<or> (ne \<and> tg = ATAG_NONE))))"

function for_each_tag ::
  "bool \<Rightarrow> (nat \<Rightarrow> 's \<Rightarrow> 's loop option) \<Rightarrow> bytes \<Rightarrow> nat \<Rightarrow> 's \<Rightarrow> 's option" where
  "for_each_tag ne body mem t s =
     (case at_end ne mem t of
        None \<Rightarrow> None
      | Some True \<Rightarrow> Some s
      | Some False \<Rightarrow>
          (case body t s of
             None \<Rightarrow> None
           | Some (Break s') \<Rightarrow> Some s'
           | Some (Continue s') \<Rightarrow>
               (case tag_next mem t of
                  None \<Rightarrow> None
                | Some t' \<Rightarrow> for_each_tag ne body mem t' s')))"
  by pat_completeness auto

lemma at_end_False:
  assumes "at_end ne mem t = Some False"
  shows "\<exists>sz. hdr_size mem t = Some sz \<and> 0 < unat sz \<and> t + 8 \<le> length mem"
  using assms
  by (auto simp: at_end_def hdr_size_def hdr_tag_def read_u32_def unat_gt_0
      split: option.splits if_splits)

termination for_each_tag
  apply (relation "measure (\<lambda>(ne, body, mem, t, s). length mem - t)")
   apply simp
  apply (auto simp: tag_next_def dest!: at_end_False)
  done

declare for_each_tag.simps [simp del]

text \<open>
  Modelled from the spec: the same walk with the pointer of the machine. In
  \<open>for_each_tag\<close> above a pointer that leaves the memory object is a fault, as it is
  undefined in C, and that walk returns on every input. On the board \<open>t\<close> is a 32-bit
  pointer and \<open>tag_next\<close> adds \<open>4 * hdr.size\<close> to it modulo \<open>2 ^ 32\<close>, so the walk can come
  back to a record that it has visited, and no scan length bounds it ("the original has
  no such bound", section 4.1). \<open>record_walk\<close> is the walk with this pointer. It is a
  partial function: \<open>None\<close> is a walk that does not return, \<open>Some Fault\<close> one that reads
  outside the memory or whose body faults, and \<open>Some (Returns s)\<close> one that ends with the
  state \<open>s\<close>.
\<close>

datatype 's outcome = Fault | Returns 's

definition tag_next_ptr :: "bytes \<Rightarrow> u32 \<Rightarrow> u32 option" where
  "tag_next_ptr mem t = map_option (\<lambda>sz. t + push_bit 2 sz) (hdr_size mem (unat t))"

partial_function (option) record_walk ::
  "bool \<Rightarrow> (nat \<Rightarrow> 's \<Rightarrow> 's loop option) \<Rightarrow> bytes \<Rightarrow> u32 \<Rightarrow> 's \<Rightarrow> 's outcome option" where
  "record_walk ne body mem t s =
     (case at_end ne mem (unat t) of
        None \<Rightarrow> Some Fault
      | Some e \<Rightarrow>
          if e then Some (Returns s)
          else (case body (unat t) s of
                  None \<Rightarrow> Some Fault
                | Some (Break s') \<Rightarrow> Some (Returns s')
                | Some (Continue s') \<Rightarrow>
                    (case tag_next_ptr mem t of
                       None \<Rightarrow> Some Fault
                     | Some t' \<Rightarrow> record_walk ne body mem t' s')))"

section \<open>The board's state\<close>

text \<open>
  The file's static variables and the fields of \<open>gd\<close> that the code writes.
  \<open>fw_atags_copy\<close> is \<open>None\<close> for the \<open>NULL\<close> pointer and otherwise holds the
  contents of the block it points to. \<open>phys_size_t\<close> (the type of \<open>gd->ram_size\<close>) is
  \<open>unsigned long\<close> on a 32-bit ARM without \<open>CONFIG_PHYS_64BIT\<close>, the 32-bit word of
  this board, and \<open>+=\<close> on it wraps.
\<close>

record dram_bank =
  bank_start :: u32
  bank_size :: u32

type_synonym environment = "string \<rightharpoonup> string"

record board =
  fw_mach :: u32
  fw_atags :: u32
  fw_atags_copy :: "bytes option"
  fw_atags_size :: u32
  ram_size :: u32
  bi_dram :: "dram_bank list"
  env :: environment

text \<open>
  Modelled from the spec: the environment store (\<open>env.h\<close>), "a simple key-value sink":
  \<open>env_get\<close> is \<open>NULL\<close> (\<open>None\<close>) for a key that has no value.
\<close>

definition env_get :: "environment \<Rightarrow> string \<Rightarrow> string option" where
  "env_get e k = e k"

definition env_set :: "environment \<Rightarrow> string \<Rightarrow> string \<Rightarrow> environment" where
  "env_set e k v = e(k \<mapsto> v)"

text \<open>
  Modelled from the spec: \<open>sprintf (serial, "%08x%08x", high, low)\<close> (the formatter is
  not among the sources), sections 4.4 and 6: the two fields are written as "lowercase
  hex digits", "zero-padded to 8 digits each". As in C, \<open>%08x\<close> prints the value with as
  many digits as it needs and pads it with zeros on the left to a width of at least 8.
  Writing the string and its terminating NUL into a buffer of \<open>cap\<close> bytes overflows
  the buffer (\<open>None\<close>) when they do not fit.
\<close>

definition hex_digit :: "nat \<Rightarrow> char" where
  "hex_digit d = ''0123456789abcdef'' ! d"

fun hex_of_nat :: "nat \<Rightarrow> string" where
  "hex_of_nat n =
     (if n < 16 then [hex_digit n] else hex_of_nat (n div 16) @ [hex_digit (n mod 16)])"

declare hex_of_nat.simps [simp del]

definition fmt_08x :: "u32 \<Rightarrow> string" where
  "fmt_08x w = (let d = hex_of_nat (unat w) in replicate (8 - length d) CHR ''0'' @ d)"

definition sprintf_08x_08x :: "nat \<Rightarrow> u32 \<Rightarrow> u32 \<Rightarrow> string option" where
  "sprintf_08x_08x cap a b =
     (let str = fmt_08x a @ fmt_08x b in if length str + 1 \<le> cap then Some str else None)"

section \<open>\<open>board/ste/stemmy/stemmy.c\<close>\<close>

text \<open>\<open>EINVAL\<close> of \<open>errno.h\<close>.\<close>

definition EINVAL :: int where "EINVAL = 22"

text \<open>\<open>&t->u\<close>: the payload follows the two header words.\<close>

definition tag_u :: "nat \<Rightarrow> nat" where
  "tag_u t = t + 8"

definition save_boot_params :: "u32 \<Rightarrow> u32 \<Rightarrow> u32 \<Rightarrow> u32 \<Rightarrow> board \<Rightarrow> board" where
  "save_boot_params r0 r1 r2 r3 s = s\<lparr>fw_mach := r1, fw_atags := r2\<rparr>"

text \<open>\<open>fw_atags_get\<close>: \<open>Some None\<close> is the \<open>NULL\<close> it returns for a list that does not
  start with \<open>ATAG_CORE\<close>.\<close>

definition fw_atags_get :: "bytes \<Rightarrow> board \<Rightarrow> nat option option" where
  "fw_atags_get mem s =
     (let tags = unat (fw_atags s) in
      case hdr_tag mem tags of
        None \<Rightarrow> None
      | Some tg \<Rightarrow> if tg \<noteq> ATAG_CORE then Some None else Some (Some tags))"

definition dram_init_body :: "bytes \<Rightarrow> nat \<Rightarrow> board \<Rightarrow> board loop option" where
  "dram_init_body mem t s =
     (case hdr_tag mem t of
        None \<Rightarrow> None
      | Some tg \<Rightarrow>
          if tg \<noteq> ATAG_MEM then Some (Continue s)
          else (case mem_size mem (tag_u t) of
                  None \<Rightarrow> None
                | Some sz \<Rightarrow> Some (Continue (s\<lparr>ram_size := ram_size s + sz\<rparr>))))"

definition dram_init :: "bool \<Rightarrow> bytes \<Rightarrow> board \<Rightarrow> (int \<times> board) option" where
  "dram_init ne mem s =
     (case fw_atags_get mem s of
        None \<Rightarrow> None
      | Some None \<Rightarrow> Some (- EINVAL, s)
      | Some (Some tags) \<Rightarrow>
          map_option (Pair 0) (for_each_tag ne (dram_init_body mem) mem tags s))"

text \<open>
  \<open>dram_init_banksize\<close>. \<open>CONFIG_NR_DRAM_BANKS\<close> comes from the board's configuration and
  is the parameter \<open>nr\<close>; the loop's state is the board and the local \<open>bank\<close>. A store
  to \<open>bi_dram[bank]\<close> outside the array is a fault.
\<close>

definition banksize_body ::
  "nat \<Rightarrow> bytes \<Rightarrow> nat \<Rightarrow> board \<times> nat \<Rightarrow> (board \<times> nat) loop option" where
  "banksize_body nr mem t = (\<lambda>(s, bank).
     case hdr_tag mem t of
       None \<Rightarrow> None
     | Some tg \<Rightarrow>
         if tg \<noteq> ATAG_MEM then Some (Continue (s, bank))
         else (case mem_start mem (tag_u t) of
                 None \<Rightarrow> None
               | Some st \<Rightarrow>
                   (case mem_size mem (tag_u t) of
                      None \<Rightarrow> None
                    | Some sz \<Rightarrow>
                        if bank < length (bi_dram s)
                        then let s' = s\<lparr>bi_dram :=
                                   (bi_dram s)[bank := \<lparr>bank_start = st, bank_size = sz\<rparr>]\<rparr>
                             in if Suc bank = nr then Some (Break (s', Suc bank))
                                else Some (Continue (s', Suc bank))
                        else None)))"

definition dram_init_banksize :: "bool \<Rightarrow> nat \<Rightarrow> bytes \<Rightarrow> board \<Rightarrow> (int \<times> board) option" where
  "dram_init_banksize ne nr mem s =
     (case fw_atags_get mem s of
        None \<Rightarrow> None
      | Some None \<Rightarrow> Some (- EINVAL, s)
      | Some (Some tags) \<Rightarrow>
          map_option (\<lambda>(s', bank). (0, s'))
            (for_each_tag ne (banksize_body nr mem) mem tags (s, 0)))"

text \<open>
  \<open>check_keys\<close>: the device tree and the GPIO driver are outside this file; what they
  answer is an input: whether \<open>gd->fdt_blob\<close> is set, and the two values that
  \<open>dm_gpio_get_value\<close> returns.
\<close>

record gpio_keys =
  fdt_blob :: bool
  vol_up :: int
  vol_down :: int

definition check_keys :: "gpio_keys \<Rightarrow> environment \<Rightarrow> environment" where
  "check_keys keys e =
     (if \<not> fdt_blob keys then e
      else let e1 = (if vol_up keys = 1 then env_set e ''bootcmd'' ''run recoverybootcmd''
                     else e)
           in if vol_down keys = 1
              then env_set e1 ''preboot'' ''setenv preboot; run fastbootcmd''
              else e1)"

text \<open>\<open>parse_serial\<close>, on the address of the \<open>struct tag_serialnr\<close>; \<open>serial\<close> is a
  buffer of 17 bytes.\<close>

definition parse_serial :: "bytes \<Rightarrow> nat \<Rightarrow> environment \<Rightarrow> environment option" where
  "parse_serial mem serialnr e =
     (if env_get e ''serial#'' \<noteq> None then Some e
      else (case serialnr_high mem serialnr of
              None \<Rightarrow> None
            | Some high \<Rightarrow>
                (case serialnr_low mem serialnr of
                   None \<Rightarrow> None
                 | Some low \<Rightarrow>
                     (case sprintf_08x_08x 17 high low of
                        None \<Rightarrow> None
                      | Some serial \<Rightarrow> Some (env_set e ''serial#'' serial)))))"

definition skip_atag :: "u32 \<Rightarrow> bool" where
  "skip_atag tag =
     (tag = ATAG_NONE \<or> tag = ATAG_CORE \<or> tag = ATAG_INITRD \<or> tag = ATAG_INITRD2)"

text \<open>The first loop of \<open>copy_atags\<close>: "Calculate necessary size for tags we want to
  copy".\<close>

definition size_body :: "bytes \<Rightarrow> nat \<Rightarrow> board \<Rightarrow> board loop option" where
  "size_body mem t s =
     (case hdr_tag mem t of
        None \<Rightarrow> None
      | Some tg \<Rightarrow>
          if skip_atag tg then Some (Continue s)
          else (case (if tg = ATAG_SERIAL then parse_serial mem (tag_u t) (env s)
                      else Some (env s)) of
                  None \<Rightarrow> None
                | Some e \<Rightarrow>
                    (case hdr_size mem t of
                       None \<Rightarrow> None
                     | Some sz \<Rightarrow>
                         Some (Continue (s\<lparr>env := e,
                           fw_atags_size := fw_atags_size s + push_bit 2 sz\<rparr>)))))"

definition size_pass :: "bool \<Rightarrow> bytes \<Rightarrow> nat \<Rightarrow> board \<Rightarrow> board option" where
  "size_pass ne mem tags s = for_each_tag ne (size_body mem) mem tags s"

text \<open>The second loop, "Copy tags": its state is the block and the offset of the local
  pointer \<open>copy\<close> in it.\<close>

definition copy_body :: "bytes \<Rightarrow> nat \<Rightarrow> bytes \<times> nat \<Rightarrow> (bytes \<times> nat) loop option" where
  "copy_body mem t = (\<lambda>(buf, copy).
     case hdr_tag mem t of
       None \<Rightarrow> None
     | Some tg \<Rightarrow>
         if skip_atag tg then Some (Continue (buf, copy))
         else (case hdr_size mem t of
                 None \<Rightarrow> None
               | Some sz \<Rightarrow>
                   (case memcpy buf copy mem t (unat (push_bit 2 sz :: u32)) of
                      None \<Rightarrow> None
                    | Some buf' \<Rightarrow>
                        (case tag_next buf' copy of
                           None \<Rightarrow> None
                         | Some copy' \<Rightarrow> Some (Continue (buf', copy'))))))"

definition copy_pass :: "bool \<Rightarrow> bytes \<Rightarrow> nat \<Rightarrow> bytes \<Rightarrow> (bytes \<times> nat) option" where
  "copy_pass ne mem tags buf = for_each_tag ne (copy_body mem) mem tags (buf, 0)"

definition copy_atags :: "bool \<Rightarrow> allocator \<Rightarrow> bytes \<Rightarrow> nat option \<Rightarrow> board \<Rightarrow> board option" where
  "copy_atags ne heap mem tags s =
     (case tags of
        None \<Rightarrow> Some s
      | Some t \<Rightarrow>
          (case size_pass ne mem t s of
             None \<Rightarrow> None
           | Some s1 \<Rightarrow>
               if fw_atags_size s1 = 0 then Some s1
               else (case malloc heap (unat (fw_atags_size s1)) of
                       None \<Rightarrow> Some s1
                     | Some buf \<Rightarrow>
                         (case copy_pass ne mem t buf of
                            None \<Rightarrow> None
                          | Some (buf', copy) \<Rightarrow> Some (s1\<lparr>fw_atags_copy := Some buf'\<rparr>)))))"

definition misc_init_r ::
  "bool \<Rightarrow> allocator \<Rightarrow> gpio_keys \<Rightarrow> bytes \<Rightarrow> board \<Rightarrow> (int \<times> board) option" where
  "misc_init_r ne heap keys mem s =
     (case fw_atags_get mem s of
        None \<Rightarrow> None
      | Some tags \<Rightarrow>
          (case copy_atags ne heap mem tags s of
             None \<Rightarrow> None
           | Some s' \<Rightarrow> Some (0, s'\<lparr>env := check_keys keys (env s')\<rparr>)))"


section \<open>Vocabulary of the statements\<close>

text \<open>
  \<open>tag_list ne mem base\<close> is the sequence of tag addresses that \<open>for_each_tag\<close>
  visits from \<open>base\<close>: the loop itself, run with a body that only records the address.
  It is \<open>None\<close> when the walk leaves the memory. \<open>run_body\<close> runs a loop body over such
  a sequence.
\<close>

definition collect :: "nat \<Rightarrow> nat list \<Rightarrow> nat list loop option" where
  "collect t ps = Some (Continue (ps @ [t]))"

definition tag_list :: "bool \<Rightarrow> bytes \<Rightarrow> nat \<Rightarrow> nat list option" where
  "tag_list ne mem base = for_each_tag ne collect mem base []"

fun run_body :: "(nat \<Rightarrow> 's \<Rightarrow> 's loop option) \<Rightarrow> nat list \<Rightarrow> 's \<Rightarrow> 's option" where
  "run_body body [] s = Some s"
| "run_body body (t # ts) s =
     (case body t s of
        None \<Rightarrow> None
      | Some (Break s') \<Rightarrow> Some s'
      | Some (Continue s') \<Rightarrow> run_body body ts s')"

text \<open>
  \<open>records ne mem t ts e\<close>: the records at the addresses \<open>ts\<close> follow one another from
  \<open>t\<close>, each a \<open>tag_next_ptr\<close> after the one before, none of them ends the walk, and
  the record after the last of them is at \<open>e\<close>. \<open>outcome_of\<close> reads the result of
  \<open>run_body\<close> as an outcome of the walk.
\<close>

fun records :: "bool \<Rightarrow> bytes \<Rightarrow> u32 \<Rightarrow> u32 list \<Rightarrow> u32 \<Rightarrow> bool" where
  "records ne mem t [] e = (t = e)"
| "records ne mem t (x # xs) e =
     (x = t \<and> at_end ne mem (unat t) = Some False \<and>
      (case tag_next_ptr mem t of None \<Rightarrow> False | Some t' \<Rightarrow> records ne mem t' xs e))"

definition outcome_of :: "'s option \<Rightarrow> 's outcome" where
  "outcome_of r = (case r of None \<Rightarrow> Fault | Some s \<Rightarrow> Returns s)"

text \<open>
  The fields of a tag whose header is readable, the bytes it occupies, and the tags
  that \<open>copy_atags\<close> does not skip.
\<close>

definition size_of :: "bytes \<Rightarrow> nat \<Rightarrow> nat" where
  "size_of mem t = (case hdr_size mem t of None \<Rightarrow> 0 | Some sz \<Rightarrow> unat sz)"

definition tag_of :: "bytes \<Rightarrow> nat \<Rightarrow> u32" where
  "tag_of mem t = (case hdr_tag mem t of None \<Rightarrow> ATAG_NONE | Some tg \<Rightarrow> tg)"

definition record_bytes :: "bytes \<Rightarrow> nat \<Rightarrow> bytes" where
  "record_bytes mem t = take (4 * size_of mem t) (drop t mem)"

definition kept :: "bytes \<Rightarrow> nat list \<Rightarrow> nat list" where
  "kept mem ts = filter (\<lambda>t. \<not> skip_atag (tag_of mem t)) ts"

definition tags_of :: "bool \<Rightarrow> bytes \<Rightarrow> nat \<Rightarrow> nat list" where
  "tags_of ne mem base = (case tag_list ne mem base of None \<Rightarrow> [] | Some ts \<Rightarrow> ts)"

definition total_bytes :: "bytes \<Rightarrow> nat list \<Rightarrow> nat" where
  "total_bytes mem ts = (\<Sum>t\<leftarrow>ts. 4 * size_of mem t)"

text \<open>
  A well-formed list: the memory fits the 32-bit address space, the walk from \<open>base\<close>
  reaches the end of the list inside the memory, and every tag before the end is at
  least as long as its two-word header (the spec's invariant
  \<open>size >= header_words\<close>).
\<close>

definition wf_list :: "bool \<Rightarrow> bytes \<Rightarrow> nat \<Rightarrow> bool" where
  "wf_list ne mem base =
     (length mem \<le> 2 ^ 32 \<and>
      (case tag_list ne mem base of
         None \<Rightarrow> False
       | Some ts \<Rightarrow> list_all (\<lambda>t. 2 \<le> size_of mem t) ts))"

text \<open>What the loops need of a tag they visit.\<close>

definition tag_ok :: "bytes \<Rightarrow> nat \<Rightarrow> bool" where
  "tag_ok mem t =
     (\<exists>tg sz. hdr_tag mem t = Some tg \<and> hdr_size mem t = Some sz \<and>
        2 \<le> unat sz \<and> t + 4 * unat sz + 8 \<le> length mem \<and> length mem \<le> 2 ^ 32)"

text \<open>\<open>splice buf c xs\<close>: the block \<open>buf\<close> with \<open>xs\<close> written at offset \<open>c\<close>.\<close>

definition splice :: "bytes \<Rightarrow> nat \<Rightarrow> bytes \<Rightarrow> bytes" where
  "splice buf c xs = take c buf @ xs @ drop (c + length xs) buf"

text \<open>The bytes and the byte count of the tags of a list that are not skipped.\<close>

definition filtered :: "bool \<Rightarrow> bytes \<Rightarrow> nat \<Rightarrow> bytes" where
  "filtered ne mem base = concat (map (record_bytes mem) (kept mem (tags_of ne mem base)))"

definition filtered_size :: "bool \<Rightarrow> bytes \<Rightarrow> nat \<Rightarrow> nat" where
  "filtered_size ne mem base = total_bytes mem (kept mem (tags_of ne mem base))"






text \<open>The state at boot: \<open>gd\<close> is zeroed and the statics have their initialisers.\<close>

definition initial_board :: "nat \<Rightarrow> board" where
  "initial_board nr =
     \<lparr>fw_mach = 0, fw_atags = 0, fw_atags_copy = None, fw_atags_size = 0, ram_size = 0,
      bi_dram = replicate nr \<lparr>bank_start = 0, bank_size = 0\<rparr>, env = Map.empty\<rparr>"

section \<open>Example inputs\<close>

text \<open>A SERIALNR tag (4 words) with \<open>low = 1\<close> and \<open>high = 2\<close>.\<close>

definition ex_serial :: bytes where
  "ex_serial = [0x06, 0x00, 0x41, 0x54,  4, 0, 0, 0,  1, 0, 0, 0,  2, 0, 0, 0]"

text \<open>
  The list \<open>[CORE, MEM (start 0x80000000, size 0x40000000), SERIALNR (low 1, high 0),
  INITRD, NONE]\<close> and what \<open>copy_atags\<close> keeps of it.
\<close>

definition ex_atags :: bytes where
  "ex_atags =
     [0x01, 0x00, 0x41, 0x54,  2, 0, 0, 0,
      0x02, 0x00, 0x41, 0x54,  4, 0, 0, 0,  0, 0, 0, 0x80,  0, 0, 0, 0x40,
      0x06, 0x00, 0x41, 0x54,  4, 0, 0, 0,  1, 0, 0, 0,  0, 0, 0, 0,
      0x05, 0x00, 0x41, 0x54,  4, 0, 0, 0,  0, 0, 0, 0x81,  0, 0, 0x10, 0,
      0, 0, 0, 0,  0, 0, 0, 0]"

definition ex_filtered :: bytes where
  "ex_filtered =
     [0x02, 0x00, 0x41, 0x54,  4, 0, 0, 0,  0, 0, 0, 0x80,  0, 0, 0, 0x40,
      0x06, 0x00, 0x41, 0x54,  4, 0, 0, 0,  1, 0, 0, 0,  0, 0, 0, 0]"


definition ex_zero :: bytes where
  "ex_zero =
     [0x01, 0x00, 0x41, 0x54,  2, 0, 0, 0,
      0x02, 0x00, 0x41, 0x54,  4, 0, 0, 0,  0, 0, 0, 0x80,  0, 0, 0, 0x10,
      0x02, 0x00, 0x41, 0x54,  0, 0, 0, 0,  0, 0, 0, 0xA0,  0, 0, 0, 0x20,
      0, 0, 0, 0,  0, 0, 0, 0]"


text \<open>
  A CORE tag whose size is \<open>0x40000000\<close> words, that is \<open>2 ^ 32\<close> bytes.
\<close>

definition ex_loop :: bytes where
  "ex_loop = [0x01, 0x00, 0x41, 0x54,  0, 0, 0, 0x40]"



section \<open>The serial number\<close>

lemma replicate_numeral: "replicate (numeral k) x = x # replicate (pred_numeral k) x"
  by (simp add: numeral_eq_Suc)

lemma length_hex_of_nat: "n < 16 ^ Suc k \<Longrightarrow> length (hex_of_nat n) \<le> Suc k"
proof (induction k arbitrary: n)
  case 0
  then show ?case
    by (simp add: hex_of_nat.simps [of n])
next
  case (Suc k)
  show ?case
  proof (cases "n < 16")
    case True
    then show ?thesis
      by (simp add: hex_of_nat.simps [of n])
  next
    case False
    from Suc.prems have "n div 16 < 16 ^ Suc k"
      by (simp add: less_mult_imp_div_less)
    then have "length (hex_of_nat (n div 16)) \<le> Suc k"
      by (rule Suc.IH)
    with False show ?thesis
      by (simp add: hex_of_nat.simps [of n])
  qed
qed

lemma length_fmt_08x: "length (fmt_08x w) = 8"
proof -
  have "unat w < 2 ^ 32"
    using unsigned_less [of w] by simp
  then have "unat w < 16 ^ Suc 7"
    by simp
  then have "length (hex_of_nat (unat w)) \<le> Suc 7"
    by (rule length_hex_of_nat)
  then show ?thesis
    by (simp add: fmt_08x_def Let_def)
qed

lemma sprintf_serial: "sprintf_08x_08x 17 a b = Some (fmt_08x a @ fmt_08x b)"
  by (simp add: sprintf_08x_08x_def length_fmt_08x)

lemma fmt_08x_1: "fmt_08x 1 = ''00000001''"
  by (simp add: fmt_08x_def hex_of_nat.simps hex_digit_def replicate_numeral)

lemma fmt_08x_2: "fmt_08x 2 = ''00000002''"
  by (simp add: fmt_08x_def hex_of_nat.simps hex_digit_def replicate_numeral)

lemma parse_serial_total:
  assumes "u + 8 \<le> length mem"
  shows "\<exists>e'. parse_serial mem u e = Some e'"
  using assms
  by (simp add: parse_serial_def serialnr_high_def serialnr_low_def read_u32_def
      sprintf_serial)

text \<open>
  C10. Whatever the two 32-bit fields of the SERIALNR tag are, the string that
  \<open>parse_serial\<close> formats has exactly 16 characters; with its terminating NUL it takes
  17 bytes, so the \<open>sprintf\<close> into \<open>char serial[17]\<close> never overflows the buffer. So
  \<open>parse_serial\<close> itself never faults on its buffer, on any tag and any environment: it
  leaves an environment that has a \<open>serial#\<close> as it is, and otherwise, when the two
  fields are readable, sets \<open>serial#\<close> to that string.
\<close>

theorem serial_fits_buffer:
  "length (fmt_08x high @ fmt_08x low) = 16 \<and>
   length (fmt_08x high @ fmt_08x low) + 1 = 17 \<and>
   sprintf_08x_08x 17 high low = Some (fmt_08x high @ fmt_08x low) \<and>
   parse_serial mem serialnr e =
     (if env_get e ''serial#'' \<noteq> None then Some e
      else case serialnr_high mem serialnr of
             None \<Rightarrow> None
           | Some h \<Rightarrow>
               (case serialnr_low mem serialnr of
                  None \<Rightarrow> None
                | Some l \<Rightarrow> Some (env_set e ''serial#'' (fmt_08x h @ fmt_08x l))))"
  by (simp add: parse_serial_def sprintf_08x_08x_def length_fmt_08x split: option.splits)

text \<open>
  C6. Given a SERIALNR tag with \<open>low = 0x1\<close> and \<open>high = 0x2\<close>: when the environment has
  no value for \<open>serial#\<close>, \<open>parse_serial\<close> sets \<open>serial#\<close> to \<open>0000000200000001\<close> (the high
  word first, each word as 8 zero-padded hexadecimal digits) and writes nothing else.
  When \<open>serial#\<close> has a value, \<open>parse_serial\<close> leaves the environment as it is, whatever
  the tag holds.
\<close>

theorem parse_serial_example:
  "(serialnr_low mem u = Some 1 \<and> serialnr_high mem u = Some 2 \<and>
    env_get e ''serial#'' = None \<longrightarrow>
      parse_serial mem u e = Some (e(''serial#'' \<mapsto> ''0000000200000001'')) \<and>
      (\<exists>e'. parse_serial mem u e = Some e' \<and>
         env_get e' ''serial#'' = Some ''0000000200000001'')) \<and>
   (env_get e ''serial#'' = Some v \<longrightarrow> parse_serial mem u e = Some e)"
  by (simp add: parse_serial_def sprintf_serial fmt_08x_1 fmt_08x_2 env_get_def env_set_def)

theorem parse_serial_example_witness:
  "parse_serial ex_serial (tag_u 0) Map.empty =
     Some [''serial#'' \<mapsto> ''0000000200000001''] \<and>
   parse_serial ex_serial (tag_u 0) [''serial#'' \<mapsto> ''sentinel''] =
     Some [''serial#'' \<mapsto> ''sentinel'']"
proof -
  have low: "serialnr_low ex_serial (tag_u 0) = Some 1"
    by (simp add: serialnr_low_def tag_u_def read_u32_def ex_serial_def le32_def)
  have high: "serialnr_high ex_serial (tag_u 0) = Some 2"
    by (simp add: serialnr_high_def tag_u_def read_u32_def ex_serial_def le32_def)
  have none: "env_get Map.empty ''serial#'' = None"
    by (simp add: env_get_def)
  have some: "env_get [''serial#'' \<mapsto> ''sentinel''] ''serial#'' = Some ''sentinel''"
    by (simp add: env_get_def)
  from parse_serial_example [of ex_serial "tag_u 0" Map.empty] low high none
  have "parse_serial ex_serial (tag_u 0) Map.empty =
      Some [''serial#'' \<mapsto> ''0000000200000001'']"
    by simp
  moreover from parse_serial_example
    [of ex_serial "tag_u 0" "[''serial#'' \<mapsto> ''sentinel'']" "''sentinel''"] some
  have "parse_serial ex_serial (tag_u 0) [''serial#'' \<mapsto> ''sentinel''] =
      Some [''serial#'' \<mapsto> ''sentinel'']"
    by simp
  ultimately show ?thesis
    by simp
qed

section \<open>The walk over a list\<close>

lemma collect_acc:
  "for_each_tag ne collect mem t (acc @ acc') =
     map_option ((@) acc) (for_each_tag ne collect mem t acc')"
proof (induction ne "collect" mem t acc' rule: for_each_tag.induct)
  case (1 ne mem t s)
  show ?case
  proof (cases "at_end ne mem t")
    case None
    then show ?thesis
      by (simp add: for_each_tag.simps [of ne collect mem t])
  next
    case (Some e)
    show ?thesis
    proof (cases e)
      case True
      with Some show ?thesis
        by (simp add: for_each_tag.simps [of ne collect mem t])
    next
      case False
      show ?thesis
      proof (cases "tag_next mem t")
        case None
        with Some False show ?thesis
          by (simp add: for_each_tag.simps [of ne collect mem t] collect_def)
      next
        case (Some t')
        with \<open>at_end ne mem t = Some e\<close> False
        have "for_each_tag ne collect mem t' (acc @ s @ [t]) =
            map_option ((@) acc) (for_each_tag ne collect mem t' (s @ [t]))"
          using "1" [of e "Continue (s @ [t])" "s @ [t]" t']
          by (simp add: collect_def)
        with Some \<open>at_end ne mem t = Some e\<close> False show ?thesis
          by (simp add: for_each_tag.simps [of ne collect mem t] collect_def)
      qed
    qed
  qed
qed

lemma tag_list_rec:
  "tag_list ne mem t =
     (case at_end ne mem t of
        None \<Rightarrow> None
      | Some True \<Rightarrow> Some []
      | Some False \<Rightarrow>
          (case tag_next mem t of
             None \<Rightarrow> None
           | Some t' \<Rightarrow> map_option ((#) t) (tag_list ne mem t')))"
proof -
  have "(@) [t] = (#) t"
    by (rule ext) simp
  then show ?thesis
    using collect_acc [of ne mem _ "[t]" "[]"]
    by (simp add: tag_list_def for_each_tag.simps [of ne collect mem t "[]"] collect_def
        split: option.splits bool.splits)
qed

lemma for_each_tag_run:
  "tag_list ne mem t = Some ps \<Longrightarrow> for_each_tag ne body mem t s = run_body body ps s"
proof (induction ne body mem t s arbitrary: ps rule: for_each_tag.induct)
  case (1 ne body mem t s)
  from "1.prems" show ?case
    using "1.IH"
    by (subst for_each_tag.simps, subst (asm) tag_list_rec)
      (auto split: option.splits bool.splits loop.splits)
qed

lemma tag_list_readable:
  assumes "tag_list ne mem t = Some ts"
  shows "t + 8 \<le> length mem"
  using assms
  by (subst (asm) tag_list_rec)
    (auto simp: at_end_def hdr_size_def read_u32_def split: option.splits if_splits)

lemma tag_list_Nil:
  assumes "tag_list ne mem t = Some []"
  shows "at_end ne mem t = Some True"
  using assms
  by (subst (asm) tag_list_rec) (auto split: option.splits bool.splits)

lemma tag_list_Cons:
  assumes "tag_list ne mem t = Some (p # ps)"
  shows "p = t \<and> at_end ne mem t = Some False \<and>
    tag_list ne mem (t + 4 * size_of mem t) = Some ps"
  using assms
  by (subst (asm) tag_list_rec)
    (auto simp: tag_next_def size_of_def split: option.splits bool.splits)

lemma at_end_False_hdr:
  assumes "at_end ne mem t = Some False"
  shows "\<exists>tg sz. hdr_tag mem t = Some tg \<and> hdr_size mem t = Some sz \<and> sz \<noteq> 0"
  using assms
  by (auto simp: at_end_def split: option.splits)

lemma tag_list_extent:
  "tag_list ne mem t = Some ts \<Longrightarrow> t + total_bytes mem ts + 8 \<le> length mem"
proof (induction ts arbitrary: t)
  case Nil
  then show ?case
    by (simp add: total_bytes_def tag_list_readable)
next
  case (Cons p ps)
  from tag_list_Cons [OF Cons.prems]
  have p: "p = t" and rest: "tag_list ne mem (t + 4 * size_of mem t) = Some ps"
    by simp_all
  from Cons.IH [OF rest] p show ?case
    by (simp add: total_bytes_def)
qed

lemma tag_list_ok:
  assumes "length mem \<le> 2 ^ 32"
  shows "tag_list ne mem t = Some ts \<Longrightarrow> list_all (\<lambda>t. 2 \<le> size_of mem t) ts \<Longrightarrow>
    list_all (tag_ok mem) ts"
proof (induction ts arbitrary: t)
  case Nil
  then show ?case by simp
next
  case (Cons p ps)
  from tag_list_Cons [OF Cons.prems(1)]
  have p: "p = t" and e: "at_end ne mem t = Some False"
    and rest: "tag_list ne mem (t + 4 * size_of mem t) = Some ps"
    by simp_all
  from at_end_False_hdr [OF e] obtain tg sz
    where h: "hdr_tag mem t = Some tg" "hdr_size mem t = Some sz"
    by blast
  from tag_list_readable [OF rest] h have "t + 4 * unat sz + 8 \<le> length mem"
    by (simp add: size_of_def)
  with h Cons.prems(2) p assms have "tag_ok mem p"
    by (auto simp: tag_ok_def size_of_def)
  moreover from Cons.IH [OF rest] Cons.prems(2) have "list_all (tag_ok mem) ps"
    by simp
  ultimately show ?case
    by simp
qed

lemma wf_listD:
  assumes "wf_list ne mem base"
  shows "tag_list ne mem base = Some (tags_of ne mem base)"
    and "list_all (tag_ok mem) (tags_of ne mem base)"
    and "base + total_bytes mem (tags_of ne mem base) + 8 \<le> length mem"
    and "length mem \<le> 2 ^ 32"
proof -
  from assms obtain ts where ts: "tag_list ne mem base = Some ts"
    and sz: "list_all (\<lambda>t. 2 \<le> size_of mem t) ts" and len: "length mem \<le> 2 ^ 32"
    by (auto simp: wf_list_def split: option.splits)
  from ts show "tag_list ne mem base = Some (tags_of ne mem base)"
    by (simp add: tags_of_def)
  from tag_list_ok [OF len ts sz] ts show "list_all (tag_ok mem) (tags_of ne mem base)"
    by (simp add: tags_of_def)
  from tag_list_extent [OF ts] ts
  show "base + total_bytes mem (tags_of ne mem base) + 8 \<le> length mem"
    by (simp add: tags_of_def)
  from len show "length mem \<le> 2 ^ 32" .
qed

lemma total_bytes_kept_le: "total_bytes mem (kept mem ts) \<le> total_bytes mem ts"
  by (induction ts) (simp_all add: total_bytes_def kept_def)

section \<open>The two passes of \<open>copy_atags\<close>\<close>

lemma length_splice:
  "c + length xs \<le> length buf \<Longrightarrow> length (splice buf c xs) = length buf"
  by (simp add: splice_def)

lemma splice_splice:
  assumes "c + length xs + length ys \<le> length buf"
  shows "splice (splice buf c xs) (c + length xs) ys = splice buf c (xs @ ys)"
proof -
  from assms have "min (length buf) c = c"
    by simp
  then show ?thesis
    by (simp add: splice_def ac_simps)
qed

lemma read_u32_splice:
  assumes "c + length xs \<le> length buf" "a + 4 \<le> length xs"
  shows "read_u32 (splice buf c xs) (c + a) = read_u32 xs a"
  using assms
  by (simp add: read_u32_def splice_def)

lemma read_u32_take_drop:
  assumes "a + 4 \<le> n" "t + n \<le> length mem"
  shows "read_u32 (take n (drop t mem)) a = read_u32 mem (t + a)"
  using assms
  by (simp add: read_u32_def take_drop min_def add.commute)

lemma memcpy_splice:
  assumes "s + n \<le> length src" "d + n \<le> length dst"
  shows "memcpy dst d src s n = Some (splice dst d (take n (drop s src)))"
  using assms
  by (simp add: memcpy_def splice_def)

lemma push_bit_2_of_nat: "push_bit 2 (sz :: u32) = of_nat (4 * unat sz)"
  by (simp add: push_bit_eq_mult)

lemma unat_push_bit_2:
  assumes "4 * unat (sz :: u32) < 2 ^ 32"
  shows "unat (push_bit 2 sz :: u32) = 4 * unat sz"
proof -
  have "unat (of_nat (4 * unat sz) :: u32) = 4 * unat sz"
    using assms by (simp add: unat_of_nat del: of_nat_mult)
  then show ?thesis
    by (simp only: push_bit_2_of_nat)
qed

lemma tag_okD:
  assumes "tag_ok mem t"
  obtains tg sz where "hdr_tag mem t = Some tg" "hdr_size mem t = Some sz"
    "2 \<le> unat sz" "t + 4 * unat sz + 8 \<le> length mem" "4 * unat sz < 2 ^ 32"
    "tag_of mem t = tg" "size_of mem t = unat sz"
    "length (record_bytes mem t) = 4 * unat sz"
    "unat (push_bit 2 sz :: u32) = 4 * unat sz"
proof -
  from assms obtain tg sz where h: "hdr_tag mem t = Some tg"
    "hdr_size mem t = Some sz" "2 \<le> unat sz" "t + 4 * unat sz + 8 \<le> length mem"
    "length mem \<le> 2 ^ 32"
    by (auto simp: tag_ok_def)
  then have lt: "4 * unat sz < 2 ^ 32"
    by simp
  show thesis
  proof (rule that [of tg sz])
    show "length (record_bytes mem t) = 4 * unat sz"
      using h by (simp add: record_bytes_def size_of_def)
    show "unat (push_bit 2 sz :: u32) = 4 * unat sz"
      using lt by (rule unat_push_bit_2)
  qed (use h lt in \<open>simp_all add: tag_of_def size_of_def\<close>)
qed

lemma length_concat_records:
  "list_all (tag_ok mem) ts \<Longrightarrow>
     length (concat (map (record_bytes mem) ts)) = total_bytes mem ts"
proof (induction ts)
  case Nil
  then show ?case by (simp add: total_bytes_def)
next
  case (Cons t ts)
  from Cons.prems have "tag_ok mem t" by simp
  then obtain sz :: u32
    where "size_of mem t = unat sz" "length (record_bytes mem t) = 4 * unat sz"
    by (rule tag_okD) blast
  with Cons show ?case
    by (simp add: total_bytes_def)
qed

lemma list_all_kept: "list_all P ts \<Longrightarrow> list_all P (kept mem ts)"
  by (simp add: kept_def list_all_iff)

lemma size_run:
  "list_all (tag_ok mem) ts \<Longrightarrow>
     \<exists>e. run_body (size_body mem) ts s =
       Some (s\<lparr>env := e,
         fw_atags_size := fw_atags_size s + of_nat (total_bytes mem (kept mem ts))\<rparr>)"
proof (induction ts arbitrary: s)
  case Nil
  have "s = s\<lparr>env := env s, fw_atags_size := fw_atags_size s\<rparr>"
    by simp
  then show ?case
    by (auto simp: total_bytes_def kept_def intro: exI [of _ "env s"])
next
  case (Cons t ts)
  from Cons.prems have ok: "tag_ok mem t" and rest: "list_all (tag_ok mem) ts"
    by simp_all
  from ok obtain tg sz where h: "hdr_tag mem t = Some tg" "hdr_size mem t = Some sz"
    "2 \<le> unat sz" "t + 4 * unat sz + 8 \<le> length mem"
    "tag_of mem t = tg" "size_of mem t = unat sz"
    by (rule tag_okD) blast
  show ?case
  proof (cases "skip_atag tg")
    case True
    with h Cons.IH [OF rest, of s] show ?thesis
      by (simp add: size_body_def kept_def)
  next
    case False
    from h have "tag_u t + 8 \<le> length mem"
      by (simp add: tag_u_def)
    then obtain e1 where e1: "parse_serial mem (tag_u t) (env s) = Some e1"
      using parse_serial_total by blast
    define e2 where "e2 = (if tg = ATAG_SERIAL then e1 else env s)"
    define s1 where "s1 = s\<lparr>env := e2, fw_atags_size := fw_atags_size s + push_bit 2 sz\<rparr>"
    from h False e1 have body: "size_body mem t s = Some (Continue s1)"
      by (simp add: size_body_def s1_def e2_def)
    from Cons.IH [OF rest, of s1] obtain e where
      "run_body (size_body mem) ts s1 =
         Some (s1\<lparr>env := e,
           fw_atags_size := fw_atags_size s1 + of_nat (total_bytes mem (kept mem ts))\<rparr>)"
      by blast
    with body h False have "run_body (size_body mem) (t # ts) s =
        Some (s\<lparr>env := e,
          fw_atags_size := fw_atags_size s + of_nat (total_bytes mem (kept mem (t # ts)))\<rparr>)"
      by (simp add: s1_def kept_def total_bytes_def push_bit_2_of_nat add.assoc
          del: of_nat_mult of_nat_add) (simp add: algebra_simps)
    then show ?thesis
      by blast
  qed
qed

lemma copy_run:
  "list_all (tag_ok mem) ts \<Longrightarrow> c + total_bytes mem (kept mem ts) \<le> length buf \<Longrightarrow>
     run_body (copy_body mem) ts (buf, c) =
       Some (splice buf c (concat (map (record_bytes mem) (kept mem ts))),
             c + total_bytes mem (kept mem ts))"
proof (induction ts arbitrary: buf c)
  case Nil
  then show ?case
    by (simp add: kept_def total_bytes_def splice_def)
next
  case (Cons t ts)
  from Cons.prems have ok: "tag_ok mem t" and rest: "list_all (tag_ok mem) ts"
    by simp_all
  from ok obtain tg sz where h: "hdr_tag mem t = Some tg" "hdr_size mem t = Some sz"
    "2 \<le> unat sz" "t + 4 * unat sz + 8 \<le> length mem"
    "tag_of mem t = tg" "size_of mem t = unat sz"
    "length (record_bytes mem t) = 4 * unat sz"
    "unat (push_bit 2 sz :: u32) = 4 * unat sz"
    by (rule tag_okD) blast
  show ?case
  proof (cases "skip_atag tg")
    case True
    with h Cons.IH [OF rest, of c buf] Cons.prems(2) show ?thesis
      by (simp add: copy_body_def kept_def)
  next
    case False
    let ?r = "record_bytes mem t"
    let ?n = "4 * unat sz"
    let ?rest = "concat (map (record_bytes mem) (kept mem ts))"
    from False h have k: "kept mem (t # ts) = t # kept mem ts"
      by (simp add: kept_def)
    with Cons.prems(2) h have room: "c + ?n + total_bytes mem (kept mem ts) \<le> length buf"
      by (simp add: total_bytes_def)
    from h room have cp: "memcpy buf c mem t ?n = Some (splice buf c ?r)"
      by (simp add: memcpy_splice record_bytes_def)
    have "read_u32 (splice buf c ?r) (c + 4) = read_u32 ?r 4"
      using room h by (intro read_u32_splice) simp_all
    also have "\<dots> = read_u32 mem (t + 4)"
      unfolding record_bytes_def using h by (intro read_u32_take_drop) simp_all
    finally have nx: "tag_next (splice buf c ?r) c = Some (c + ?n)"
      using h by (simp add: tag_next_def hdr_size_def)
    from h False cp nx
    have body: "copy_body mem t (buf, c) = Some (Continue (splice buf c ?r, c + ?n))"
      by (simp add: copy_body_def)
    have len: "length (splice buf c ?r) = length buf"
      using room h by (intro length_splice) simp
    have lr: "length ?rest = total_bytes mem (kept mem ts)"
      using rest by (intro length_concat_records list_all_kept)
    from Cons.IH [OF rest, of "c + ?n" "splice buf c ?r"] room len
    have "run_body (copy_body mem) ts (splice buf c ?r, c + ?n) =
        Some (splice (splice buf c ?r) (c + ?n) ?rest,
              c + ?n + total_bytes mem (kept mem ts))"
      by simp
    moreover have "splice (splice buf c ?r) (c + ?n) ?rest = splice buf c (?r @ ?rest)"
      using splice_splice [of c ?r ?rest buf] room h lr by simp
    ultimately show ?thesis
      using body k h by (simp add: total_bytes_def add.assoc)
  qed
qed

lemma filtered_size_bound:
  assumes "wf_list ne mem base"
  shows "base + filtered_size ne mem base + 8 \<le> length mem" and "filtered_size ne mem base < 2 ^ 32"
proof -
  from wf_listD(3) [OF assms] total_bytes_kept_le [of mem "tags_of ne mem base"]
  show "base + filtered_size ne mem base + 8 \<le> length mem"
    by (simp add: filtered_size_def)
  with wf_listD(4) [OF assms] show "filtered_size ne mem base < 2 ^ 32"
    by simp
qed

lemma length_filtered:
  assumes "wf_list ne mem base"
  shows "length (filtered ne mem base) = filtered_size ne mem base"
  unfolding filtered_def filtered_size_def
  by (intro length_concat_records list_all_kept wf_listD(2) assms)



lemma size_pass_wf:
  assumes "wf_list ne mem base"
  shows "\<exists>e. size_pass ne mem base s =
    Some (s\<lparr>env := e, fw_atags_size := fw_atags_size s + of_nat (filtered_size ne mem base)\<rparr>)"
  using size_run [OF wf_listD(2) [OF assms], of s]
  by (simp add: size_pass_def for_each_tag_run [OF wf_listD(1) [OF assms]] filtered_size_def)


lemma copy_pass_block:
  assumes "wf_list ne mem base" "filtered_size ne mem base \<le> length buf"
  shows "copy_pass ne mem base buf =
    Some (filtered ne mem base @ drop (filtered_size ne mem base) buf,
          filtered_size ne mem base)"
proof -
  have "splice buf 0 (filtered ne mem base) =
      filtered ne mem base @ drop (filtered_size ne mem base) buf"
    by (simp add: splice_def length_filtered [OF assms(1)])
  with copy_run [OF wf_listD(2) [OF assms(1)], of 0 buf] assms(2) show ?thesis
    by (simp add: copy_pass_def for_each_tag_run [OF wf_listD(1) [OF assms(1)]]
        filtered_size_def filtered_def)
qed

lemma unat_filtered_size:
  assumes "wf_list ne mem base"
  shows "unat (of_nat (filtered_size ne mem base) :: u32) = filtered_size ne mem base"
  using filtered_size_bound(2) [OF assms]
  by (simp add: unat_of_nat)


section \<open>The example list\<close>

lemmas atag_defs = ATAG_NONE_def ATAG_CORE_def ATAG_MEM_def ATAG_INITRD_def
  ATAG_SERIAL_def ATAG_INITRD2_def

lemma ex_length: "length ex_atags = 64"
  by (simp add: ex_atags_def)

lemma ex_hdr_tag:
  "hdr_tag ex_atags 0 = Some ATAG_CORE"
  "hdr_tag ex_atags 8 = Some ATAG_MEM"
  "hdr_tag ex_atags 24 = Some ATAG_SERIAL"
  "hdr_tag ex_atags 40 = Some ATAG_INITRD"
  "hdr_tag ex_atags 56 = Some ATAG_NONE"
  by (simp_all add: hdr_tag_def read_u32_def le32_def ex_atags_def atag_defs)

lemma ex_hdr_size:
  "hdr_size ex_atags 0 = Some 2"
  "hdr_size ex_atags 8 = Some 4"
  "hdr_size ex_atags 24 = Some 4"
  "hdr_size ex_atags 40 = Some 4"
  "hdr_size ex_atags 56 = Some 0"
  by (simp_all add: hdr_size_def read_u32_def le32_def ex_atags_def)

lemma ex_tag_list: "tag_list ne ex_atags 0 = Some [0, 8, 24, 40]"
  by (simp add: tag_list_rec at_end_def tag_next_def ex_hdr_tag ex_hdr_size atag_defs)

lemma ex_tags_of: "tags_of ne ex_atags 0 = [0, 8, 24, 40]"
  by (simp add: tags_of_def ex_tag_list)

lemma ex_wf: "wf_list ne ex_atags 0"
  by (simp add: wf_list_def ex_tag_list ex_length size_of_def ex_hdr_size)

lemma ex_kept_filter:
  "filter (\<lambda>t. \<not> skip_atag (tag_of ex_atags t)) (tags_of ne ex_atags 0) = [8, 24]"
  by (simp add: ex_tags_of tag_of_def ex_hdr_tag skip_atag_def atag_defs)

lemma ex_kept: "kept ex_atags (tags_of ne ex_atags 0) = [8, 24]"
  by (simp only: kept_def ex_kept_filter)

lemma ex_records: "record_bytes ex_atags 8 @ record_bytes ex_atags 24 = ex_filtered"
  by (simp add: record_bytes_def size_of_def ex_hdr_size)
    (simp add: ex_atags_def ex_filtered_def)



lemma ex_filtered_length: "length ex_filtered = 32"
  by (simp add: ex_filtered_def)

lemma ex_filtered_hdr_tag: "hdr_tag ex_filtered 0 = Some ATAG_MEM"
  by (simp add: hdr_tag_def read_u32_def le32_def ex_filtered_def ATAG_MEM_def)









lemma ex_zero_hdr:
  "hdr_tag ex_zero 8 = Some ATAG_MEM"
  "hdr_size ex_zero 8 = Some 4"
  "hdr_tag ex_zero 24 = Some ATAG_MEM"
  "hdr_size ex_zero 24 = Some 0"
  "mem_size ex_zero (tag_u 8) = Some 0x10000000"
  by (simp_all add: hdr_tag_def hdr_size_def mem_size_def tag_u_def read_u32_def le32_def
      ex_zero_def atag_defs)








section \<open>The filtered copy\<close>

text \<open>
  C1. For a well-formed list that both passes of \<open>copy_atags\<close> read unchanged, with
  \<open>fw_atags_size\<close> still 0: the first pass ends with \<open>fw_atags_size\<close> equal to the sum of
  \<open>4 * hdr.size\<close> over the tags that are not skipped (without wrapping). The records of
  these tags are together that many bytes, and on every block of at least that many bytes
  the second pass returns the block with these records in its first \<open>fw_atags_size\<close>
  bytes, whatever the block held there before, with every byte after them as it was, and
  with its pointer \<open>copy\<close> exactly \<open>fw_atags_size\<close> bytes into the block: it has written
  the bytes that the first pass counted, and no other.
\<close>

theorem copy_pass_writes_sized_total:
  assumes "wf_list ne mem tags" and "fw_atags_size s = 0"
  shows "\<exists>s1. size_pass ne mem tags s = Some s1 \<and>
    unat (fw_atags_size s1) = (\<Sum>t\<leftarrow>kept mem (tags_of ne mem tags). 4 * size_of mem t) \<and>
    length (concat (map (record_bytes mem) (kept mem (tags_of ne mem tags)))) =
      unat (fw_atags_size s1) \<and>
    (\<forall>buf. unat (fw_atags_size s1) \<le> length buf \<longrightarrow>
       copy_pass ne mem tags buf =
         Some (concat (map (record_bytes mem) (kept mem (tags_of ne mem tags))) @
                 drop (unat (fw_atags_size s1)) buf,
               unat (fw_atags_size s1)))"
proof -
  from size_pass_wf [OF assms(1), of s] assms(2) obtain e where
    sp: "size_pass ne mem tags s =
      Some (s\<lparr>env := e, fw_atags_size := of_nat (filtered_size ne mem tags)\<rparr>)"
    by auto
  let ?s1 = "s\<lparr>env := e, fw_atags_size := of_nat (filtered_size ne mem tags)\<rparr>"
  have n: "unat (fw_atags_size ?s1) = filtered_size ne mem tags"
    by (simp add: unat_filtered_size [OF assms(1)])
  have "copy_pass ne mem tags buf =
      Some (filtered ne mem tags @ drop (unat (fw_atags_size ?s1)) buf,
            unat (fw_atags_size ?s1))"
    if "unat (fw_atags_size ?s1) \<le> length buf" for buf
    using copy_pass_block [OF assms(1), of buf] that n by simp
  with sp n length_filtered [OF assms(1)] show ?thesis
    by (auto simp: filtered_size_def total_bytes_def filtered_def)
qed

theorem copy_pass_writes_sized_total_witness:
  "\<exists>s1. size_pass True ex_atags 0 (initial_board 1) = Some s1 \<and>
     unat (fw_atags_size s1) = 32 \<and> length ex_filtered = 32 \<and>
     copy_pass True ex_atags 0 (replicate 32 0xFF) = Some (ex_filtered, 32) \<and>
     copy_pass True ex_atags 0 (replicate 40 0xFF) = Some (ex_filtered @ replicate 8 0xFF, 32)"
proof -
  have "fw_atags_size (initial_board 1) = 0"
    by (simp add: initial_board_def)
  from copy_pass_writes_sized_total [OF ex_wf this] obtain s1 where
    sp: "size_pass True ex_atags 0 (initial_board 1) = Some s1"
    and n: "unat (fw_atags_size s1) =
      (\<Sum>t\<leftarrow>kept ex_atags (tags_of True ex_atags 0). 4 * size_of ex_atags t)"
    and cp: "\<forall>buf. unat (fw_atags_size s1) \<le> length buf \<longrightarrow>
      copy_pass True ex_atags 0 buf =
        Some (concat (map (record_bytes ex_atags) (kept ex_atags (tags_of True ex_atags 0))) @
                drop (unat (fw_atags_size s1)) buf,
              unat (fw_atags_size s1))"
    by blast
  from n have n32: "unat (fw_atags_size s1) = 32"
    by (simp add: ex_kept size_of_def ex_hdr_size)
  have r: "concat (map (record_bytes ex_atags) (kept ex_atags (tags_of True ex_atags 0))) =
      ex_filtered"
    by (simp add: ex_kept ex_records)
  have "copy_pass True ex_atags 0 (replicate 32 0xFF) = Some (ex_filtered, 32)"
    using cp [rule_format, of "replicate 32 0xFF"] n32 r by simp
  moreover have "copy_pass True ex_atags 0 (replicate 40 0xFF) =
      Some (ex_filtered @ replicate 8 0xFF, 32)"
    using cp [rule_format, of "replicate 40 0xFF"] n32 r by simp
  ultimately show ?thesis
    using sp n32 ex_filtered_length by blast
qed







section \<open>Filtering the filtered list\<close>













section \<open>Handing the copy on\<close>



section \<open>The end of the walk\<close>

lemma record_walk_records:
  "records ne mem t ts e \<Longrightarrow> at_end ne mem (unat e) = Some True \<Longrightarrow>
     record_walk ne body mem t s = Some (outcome_of (run_body body (map unat ts) s))"
proof (induction ts arbitrary: t s)
  case Nil
  then show ?case
    by (subst record_walk.simps) (simp add: outcome_of_def)
next
  case (Cons x xs)
  from Cons.prems(1) obtain t' where x: "x = t" and e: "at_end ne mem (unat t) = Some False"
    and n: "tag_next_ptr mem t = Some t'" and r: "records ne mem t' xs e"
    by (auto split: option.splits)
  show ?case
  proof (cases "body (unat t) s")
    case None
    with x e show ?thesis
      by (simp add: record_walk.simps [of ne body mem t s] outcome_of_def)
  next
    case (Some l)
    show ?thesis
    proof (cases l)
      case (Continue s')
      with Some x e n Cons.IH [OF r Cons.prems(2), of s'] show ?thesis
        by (simp add: record_walk.simps [of ne body mem t s])
    next
      case (Break s')
      with Some x e show ?thesis
        by (simp add: record_walk.simps [of ne body mem t s] outcome_of_def)
    qed
  qed
qed

lemma hdr_size_at_end:
  assumes "hdr_size mem t = Some 0"
  shows "at_end ne mem t = Some True"
  using assms
  by (auto simp: at_end_def hdr_size_def hdr_tag_def read_u32_def split: if_splits)

lemma records_of_tag_list:
  assumes "length mem \<le> 2 ^ 32"
  shows "tag_list ne mem t = Some ts \<Longrightarrow>
    \<exists>e. records ne mem (of_nat t) (map of_nat ts) e \<and> at_end ne mem (unat e) = Some True \<and>
      map unat (map of_nat ts :: u32 list) = ts"
proof (induction ts arbitrary: t)
  case Nil
  from tag_list_readable [OF Nil] assms have "unat (of_nat t :: u32) = t"
    by (simp add: unat_of_nat)
  with tag_list_Nil [OF Nil] show ?case
    by simp
next
  case (Cons p ps)
  from tag_list_Cons [OF Cons.prems]
  have p: "p = t" and e: "at_end ne mem t = Some False"
    and rest: "tag_list ne mem (t + 4 * size_of mem t) = Some ps"
    by simp_all
  from tag_list_readable [OF Cons.prems] assms have u: "unat (of_nat t :: u32) = t"
    by (simp add: unat_of_nat)
  from at_end_False_hdr [OF e] obtain sz where sz: "hdr_size mem t = Some sz"
    by blast
  then have "tag_next_ptr mem (of_nat t) = Some (of_nat (t + 4 * size_of mem t))"
    using u by (simp add: tag_next_ptr_def size_of_def push_bit_2_of_nat)
  with Cons.IH [OF rest] p e u show ?case
    by auto
qed

text \<open>
  On a list whose end \<open>for_each_tag\<close> reaches inside a memory of at most \<open>2 ^ 32\<close> bytes,
  the walk with the machine's pointer returns what \<open>for_each_tag\<close> returns.
\<close>

lemma record_walk_for_each_tag:
  assumes "tag_list ne mem t = Some ts" and "length mem \<le> 2 ^ 32"
  shows "record_walk ne body mem (of_nat t) s = Some (outcome_of (for_each_tag ne body mem t s))"
proof -
  from records_of_tag_list [OF assms(2,1)] obtain e where
    "records ne mem (of_nat t) (map of_nat ts) e" "at_end ne mem (unat e) = Some True"
    "map unat (map of_nat ts :: u32 list) = ts"
    by blast
  with record_walk_records [of ne mem "of_nat t" "map of_nat ts" e body s]
    for_each_tag_run [OF assms(1), of body s]
  show ?thesis
    by simp
qed

lemma ex_zero_hdr_0:
  "hdr_tag ex_zero 0 = Some ATAG_CORE"
  "hdr_size ex_zero 0 = Some 2"
  by (simp_all add: hdr_tag_def hdr_size_def read_u32_def le32_def ex_zero_def atag_defs)

lemma ex_zero_records: "records ne ex_zero 0 [0, 8] 24"
  by (simp add: at_end_def tag_next_ptr_def ex_zero_hdr ex_zero_hdr_0 atag_defs)

lemma ex_loop_hdr:
  "hdr_tag ex_loop 0 = Some ATAG_CORE"
  "hdr_size ex_loop 0 = Some 0x40000000"
  by (simp_all add: hdr_tag_def hdr_size_def read_u32_def le32_def ex_loop_def atag_defs)

lemma ex_loop_next: "tag_next_ptr ex_loop 0 = Some 0"
  by (simp add: tag_next_ptr_def ex_loop_hdr)

lemma record_walk_ex_loop:
  "record_walk ne (dram_init_body ex_loop) ex_loop 0 (s :: board) = None"
proof (cases "record_walk ne (dram_init_body ex_loop) ex_loop 0 s")
  case None
  then show ?thesis .
next
  case (Some y)
  have "body = dram_init_body ex_loop \<and> mem = ex_loop \<and> t = 0 \<longrightarrow> False"
    if "record_walk ne body mem t s = Some y" for ne body mem t and s :: board and y
    using that
  proof (induction rule: record_walk.raw_induct [rotated, consumes 1, case_names step])
    case (step w ne body mem t s y)
    show ?case
    proof
      assume a: "body = dram_init_body ex_loop \<and> mem = ex_loop \<and> t = 0"
      with step(2) have "w ne (dram_init_body ex_loop) ex_loop 0 s = Some y"
        by (simp add: at_end_def ex_loop_hdr atag_defs dram_init_body_def ex_loop_next)
      from step(1) [OF this] show False
        by simp
    qed
  qed
  from this [OF Some] show ?thesis
    by simp
qed

text \<open>
  C4. When the records of a list lead from its start to a record whose size is 0, at
  the start or after any number of records, the walk returns there: it has run its body
  on the records before that one, in order, and on nothing else, the record of size 0 is
  the end of the list, and the walk faults only if its body does. (The walk does not
  return on every list: nothing bounds it, see \<open>ex_loop\<close> below.)
\<close>

theorem zero_size_ends_walk:
  assumes "records ne mem base ts e" and "hdr_size mem (unat e) = Some 0"
  shows "record_walk ne body mem base s = Some (outcome_of (run_body body (map unat ts) s)) \<and>
    (record_walk ne body mem base s = Some Fault \<longleftrightarrow> run_body body (map unat ts) s = None)"
proof -
  from assms(2) have "at_end ne mem (unat e) = Some True"
    by (rule hdr_size_at_end)
  from record_walk_records [OF assms(1) this, of body s] show ?thesis
    by (simp add: outcome_of_def split: option.splits)
qed

theorem zero_size_ends_walk_witness:
  "record_walk True (dram_init_body ex_zero) ex_zero 0 (initial_board 1) =
     Some (Returns ((initial_board 1)\<lparr>ram_size := 0x10000000\<rparr>)) \<and>
   record_walk False (dram_init_body ex_zero) ex_zero 24 (initial_board 1) =
     Some (Returns (initial_board 1))"
proof -
  have z: "hdr_size ex_zero (unat (24 :: u32)) = Some 0"
    by (simp add: ex_zero_hdr)
  have "records False ex_zero 24 [] 24"
    by simp
  from zero_size_ends_walk [OF this z, of "dram_init_body ex_zero" "initial_board 1"]
  have "record_walk False (dram_init_body ex_zero) ex_zero 24 (initial_board 1) =
      Some (Returns (initial_board 1))"
    by (simp add: outcome_of_def)
  moreover
  from zero_size_ends_walk [OF ex_zero_records z, of True "dram_init_body ex_zero"
      "initial_board 1"]
  have "record_walk True (dram_init_body ex_zero) ex_zero 0 (initial_board 1) =
      Some (Returns ((initial_board 1)\<lparr>ram_size := 0x10000000\<rparr>))"
    by (simp add: outcome_of_def dram_init_body_def ex_zero_hdr ex_zero_hdr_0 atag_defs
        initial_board_def)
  ultimately show ?thesis
    by simp
qed

text \<open>
  The walk does not return on every list. The CORE tag of \<open>ex_loop\<close> has a size of
  \<open>0x40000000\<close> words: \<open>tag_next\<close> adds \<open>2 ^ 32\<close> bytes to the 32-bit pointer, which is the
  pointer itself, and the loop of \<open>dram_init\<close> stays at this tag for ever.
\<close>

theorem walk_never_returns:
  "hdr_tag ex_loop 0 = Some ATAG_CORE \<and> hdr_size ex_loop 0 = Some 0x40000000 \<and>
   tag_next_ptr ex_loop 0 = Some 0 \<and>
   record_walk True (dram_init_body ex_loop) ex_loop 0 (initial_board 1) = None \<and>
   record_walk False (dram_init_body ex_loop) ex_loop 0 (initial_board 1) = None"
  by (simp add: ex_loop_hdr ex_loop_next record_walk_ex_loop)

section \<open>An invalid list\<close>

text \<open>
  C5. When the first tag of the list is readable and is not CORE, \<open>fw_atags_get\<close>
  returns \<open>NULL\<close>; \<open>dram_init\<close> and \<open>dram_init_banksize\<close> return \<open>-EINVAL\<close> and leave the
  state as it is (the RAM total and the bank table keep their boot values, zero);
  \<open>copy_atags\<close> is called with \<open>NULL\<close> and returns at once, so \<open>misc_init_r\<close> returns 0
  with no block made. No call faults.
\<close>

theorem invalid_list_no_data:
  assumes "hdr_tag mem (unat (fw_atags s)) = Some tg" and "tg \<noteq> ATAG_CORE"
  shows "fw_atags_get mem s = Some None \<and>
    dram_init ne mem s = Some (- EINVAL, s) \<and>
    dram_init_banksize ne nr mem s = Some (- EINVAL, s) \<and>
    copy_atags ne heap mem None s = Some s \<and>
    misc_init_r ne heap keys mem s = Some (0, s\<lparr>env := check_keys keys (env s)\<rparr>)"
proof -
  from assms have g: "fw_atags_get mem s = Some None"
    by (simp add: fw_atags_get_def)
  have c: "copy_atags ne heap mem None s = Some s"
    by (simp add: copy_atags_def)
  from g c show ?thesis
    by (simp add: dram_init_def dram_init_banksize_def misc_init_r_def)
qed

theorem invalid_list_no_data_witness:
  "dram_init True ex_filtered (initial_board 1) = Some (- 22, initial_board 1) \<and>
   dram_init_banksize True 1 ex_filtered (initial_board 1) = Some (- 22, initial_board 1) \<and>
   ram_size (initial_board 1) = 0 \<and>
   bi_dram (initial_board 1) = [\<lparr>bank_start = 0, bank_size = 0\<rparr>] \<and>
   (\<exists>s'. misc_init_r True (Some (\<lambda>i. 0)) \<lparr>fdt_blob = False, vol_up = 0, vol_down = 0\<rparr>
       ex_filtered (initial_board 1) = Some (0, s') \<and> fw_atags_copy s' = None)"
proof -
  have t: "hdr_tag ex_filtered (unat (fw_atags (initial_board 1))) = Some ATAG_MEM"
    by (simp add: initial_board_def ex_filtered_hdr_tag)
  have n: "ATAG_MEM \<noteq> ATAG_CORE"
    by (simp add: ATAG_MEM_def ATAG_CORE_def)
  from invalid_list_no_data [OF t n, of True 1 "Some (\<lambda>i. 0)"
      "\<lparr>fdt_blob = False, vol_up = 0, vol_down = 0\<rparr>"]
  show ?thesis
    by (simp add: EINVAL_def) (simp add: initial_board_def)
qed

section \<open>The memory banks\<close>

















end
